theory Spec2Isabelle
  imports Main "HOL-Library.Word"
begin

unbundle bit_operations_syntax

section \<open>Wire codec (core/api\_protocol.py)\<close>

text \<open>
  A Python \<open>bytes\<close> value is a list of 8-bit words.  Python integers are unbounded and
  are modelled by \<open>int\<close>; offsets into a buffer are never negative in this code and are
  modelled by \<open>nat\<close>.  Every exception the source can raise is a value of \<open>error\<close>,
  and a fallible function returns \<open>error + 'a\<close> with \<open>Inl\<close> for the raised exception.
\<close>

type_synonym byte = "8 word"
type_synonym bytes = "byte list"

datatype error =
    StructError          \<comment> \<open>\<open>struct.error\<close>: value out of range, or wrong buffer size\<close>
  | IndexError           \<comment> \<open>\<open>data[offset]\<close> past the end of the buffer\<close>
  | BufferError          \<comment> \<open>raised by \<open>decode_sentence\<close>: incomplete sentence data\<close>
  | ValueError           \<comment> \<open>\<open>str.index\<close> without a match, \<open>bytes.fromhex\<close> on bad input\<close>
  | ConnectionError      \<comment> \<open>\<open>_send_raw\<close> on an engine that is not connected\<close>
  | TimeoutError         \<comment> \<open>\<open>asyncio.wait_for\<close> ran out of time\<close>
  | CancelledError       \<comment> \<open>the task was cancelled while suspended\<close>
  | APIError string string  \<comment> \<open>the client's own exception: message and category\<close>

subsection \<open>The \<open>struct\<close> module: big-endian unsigned integers\<close>

text \<open>
  \<open>struct.pack\<close> with the formats \<open>"B"\<close>, \<open>">H"\<close> and \<open>">I"\<close> writes an unsigned
  integer on 1, 2 and 4 bytes, most significant byte first, and raises \<open>struct.error\<close>
  when the value does not fit.  \<open>struct.unpack\<close> raises \<open>struct.error\<close> unless the buffer
  has exactly the size of the format.
\<close>

fun be_bytes :: "nat \<Rightarrow> int \<Rightarrow> bytes" where
  "be_bytes 0 v = []"
| "be_bytes (Suc k) v = be_bytes k (v div 256) @ [word_of_int v]"

fun be_int :: "int \<Rightarrow> bytes \<Rightarrow> int" where
  "be_int acc [] = acc"
| "be_int acc (b # bs) = be_int (acc * 256 + uint b) bs"

definition struct_pack :: "nat \<Rightarrow> int \<Rightarrow> error + bytes" where
  "struct_pack k v = (if 0 \<le> v \<and> v < 256 ^ k then Inr (be_bytes k v) else Inl StructError)"

definition struct_unpack :: "nat \<Rightarrow> bytes \<Rightarrow> error + int" where
  "struct_unpack k bs = (if length bs = k then Inr (be_int 0 bs) else Inl StructError)"

text \<open>The py_slice \<open>data[i:j]\<close> for \<open>0 \<le> i\<close>: it is cut short at the end of the buffer.\<close>

definition py_slice :: "'a list \<Rightarrow> nat \<Rightarrow> nat \<Rightarrow> 'a list" where
  "py_slice data i j = take (j - i) (drop i data)"

subsection \<open>Length encoding\<close>

definition encode_length :: "int \<Rightarrow> error + bytes" where
  "encode_length n =
     (if n < 0x80 then struct_pack 1 n
      else if n < 0x4000 then struct_pack 2 (n OR 0x8000)
      else if n < 0x200000 then
        (case struct_pack 4 (n OR 0xC00000) of
           Inl e \<Rightarrow> Inl e
         | Inr b \<Rightarrow> Inr (drop 1 b))
      else if n < 0x10000000 then struct_pack 4 (n OR 0xE0000000)
      else
        (case struct_pack 4 n of
           Inl e \<Rightarrow> Inl e
         | Inr b \<Rightarrow> Inr (0xF0 # b)))"

definition decode_length :: "bytes \<Rightarrow> nat \<Rightarrow> error + (int \<times> nat)" where
  "decode_length data offset =
     (if length data \<le> offset then Inl IndexError
      else
        let b = uint (data ! offset) in
        if b < 0x80 then Inr (b, offset + 1)
        else if b < 0xC0 then
          (case struct_unpack 2 (py_slice data offset (offset + 2)) of
             Inl e \<Rightarrow> Inl e
           | Inr v \<Rightarrow> Inr (v AND 0x3FFF, offset + 2))
        else if b < 0xE0 then
          (case struct_unpack 4 (0 # py_slice data offset (offset + 3)) of
             Inl e \<Rightarrow> Inl e
           | Inr v \<Rightarrow> Inr (v AND 0x1FFFFF, offset + 3))
        else if b < 0xF0 then
          (case struct_unpack 4 (py_slice data offset (offset + 4)) of
             Inl e \<Rightarrow> Inl e
           | Inr v \<Rightarrow> Inr (v AND 0x0FFFFFFF, offset + 4))
        else
          (case struct_unpack 4 (py_slice data (offset + 1) (offset + 5)) of
             Inl e \<Rightarrow> Inl e
           | Inr v \<Rightarrow> Inr (v, offset + 5)))"

subsection \<open>Strings and UTF-8\<close>

text \<open>
  A Python \<open>str\<close> is modelled by the list of the bytes of its UTF-8 encoding, an Isabelle
  \<open>string\<close> (a \<open>char\<close> is one byte).  \<open>startswith\<close>, \<open>index\<close> and slicing at the
  position of an ASCII character give the same result on the code points and on the
  UTF-8 bytes, and \<open>len(word.encode("utf-8"))\<close> is the length of the list.  A \<open>str\<close>
  with a lone surrogate has no UTF-8 encoding and is outside this model.
\<close>

definition byte_of_char :: "char \<Rightarrow> byte" where
  "byte_of_char c = of_nat (of_char c)"

definition char_of_byte :: "byte \<Rightarrow> char" where
  "char_of_byte b = char_of (unat b)"

definition str_encode :: "string \<Rightarrow> bytes" where
  "str_encode s = map byte_of_char s"

definition is_cont :: "byte \<Rightarrow> bool" where
  "is_cont b = (0x80 \<le> b \<and> b \<le> 0xBF)"

text \<open>
  The second byte of a three-byte and of a four-byte sequence: the ranges exclude overlong
  forms, surrogates and code points past \<open>U+10FFFF\<close>.
\<close>

definition second3 :: "byte \<Rightarrow> byte \<Rightarrow> bool" where
  "second3 b0 b1 =
     (if b0 = 0xE0 then 0xA0 \<le> b1 \<and> b1 \<le> 0xBF
      else if b0 = 0xED then 0x80 \<le> b1 \<and> b1 \<le> 0x9F
      else is_cont b1)"

definition second4 :: "byte \<Rightarrow> byte \<Rightarrow> bool" where
  "second4 b0 b1 =
     (if b0 = 0xF0 then 0x90 \<le> b1 \<and> b1 \<le> 0xBF
      else if b0 = 0xF4 then 0x80 \<le> b1 \<and> b1 \<le> 0x8F
      else is_cont b1)"

text \<open>
  \<open>utf8_scan bs\<close> looks at the front of a non-empty buffer: \<open>(True, n)\<close> when a
  well-formed sequence of \<open>n\<close> bytes starts there, \<open>(False, n)\<close> when the first \<open>n\<close>
  bytes are an ill-formed sequence (an invalid start byte, or the longest prefix of a
  sequence that its next byte, or the end of the data, breaks).
\<close>

fun utf8_scan :: "bytes \<Rightarrow> bool \<times> nat" where
  "utf8_scan [] = (False, 0)"
| "utf8_scan (b0 # rest) =
     (if b0 < 0x80 then (True, 1)
      else if b0 < 0xC2 then (False, 1)
      else if b0 < 0xE0 then
        (case rest of
           [] \<Rightarrow> (False, 1)
         | b1 # _ \<Rightarrow> if is_cont b1 then (True, 2) else (False, 1))
      else if b0 < 0xF0 then
        (case rest of
           [] \<Rightarrow> (False, 1)
         | b1 # rest1 \<Rightarrow>
             if \<not> second3 b0 b1 then (False, 1)
             else
               (case rest1 of
                  [] \<Rightarrow> (False, 2)
                | b2 # _ \<Rightarrow> if is_cont b2 then (True, 3) else (False, 2)))
      else if b0 < 0xF5 then
        (case rest of
           [] \<Rightarrow> (False, 1)
         | b1 # rest1 \<Rightarrow>
             if \<not> second4 b0 b1 then (False, 1)
             else
               (case rest1 of
                  [] \<Rightarrow> (False, 2)
                | b2 # rest2 \<Rightarrow>
                    if \<not> is_cont b2 then (False, 2)
                    else
                      (case rest2 of
                         [] \<Rightarrow> (False, 3)
                       | b3 # _ \<Rightarrow> if is_cont b3 then (True, 4) else (False, 3))))
      else (False, 1))"

text \<open>
  \<open>bytes.decode("utf-8", errors="replace")\<close>: well-formed sequences are kept, each
  ill-formed sequence becomes one \<open>U+FFFD\<close> (bytes \<open>EF BF BD\<close> in the model's
  representation of \<open>str\<close>).
\<close>

fun utf8_replace :: "bytes \<Rightarrow> bytes" where
  "utf8_replace [] = []"
| "utf8_replace (b # rest) =
     (case utf8_scan (b # rest) of
        (ok, n) \<Rightarrow>
          (if ok then take n (b # rest) else [0xEF, 0xBF, 0xBD])
          @ utf8_replace (drop (n - 1) rest))"

definition bytes_decode :: "bytes \<Rightarrow> string" where
  "bytes_decode bs = map char_of_byte (utf8_replace bs)"

fun valid_utf8 :: "bytes \<Rightarrow> bool" where
  "valid_utf8 [] = True"
| "valid_utf8 (b # rest) =
     (case utf8_scan (b # rest) of
        (ok, n) \<Rightarrow> ok \<and> valid_utf8 (drop (n - 1) rest))"

subsection \<open>Words and sentences\<close>

definition encode_word :: "string \<Rightarrow> error + bytes" where
  "encode_word word =
     (let data = str_encode word in
      case encode_length (int (length data)) of
        Inl e \<Rightarrow> Inl e
      | Inr l \<Rightarrow> Inr (l @ data))"

fun join_words :: "string list \<Rightarrow> error + bytes" where
  "join_words [] = Inr []"
| "join_words (w # ws) =
     (case encode_word w of
        Inl e \<Rightarrow> Inl e
      | Inr b \<Rightarrow>
          (case join_words ws of
             Inl e \<Rightarrow> Inl e
           | Inr bs \<Rightarrow> Inr (b @ bs)))"

definition build_sentence :: "string list \<Rightarrow> error + bytes" where
  "build_sentence words =
     (case join_words words of
        Inl e \<Rightarrow> Inl e
      | Inr bs \<Rightarrow> Inr (bs @ [0x00]))"

function decode_sentence_loop :: "bytes \<Rightarrow> nat \<Rightarrow> string list \<Rightarrow> error + (string list \<times> nat)" where
  "decode_sentence_loop data offset words =
     (if offset < length data then
        (case decode_length data offset of
           Inl e \<Rightarrow> Inl e
         | Inr (len, offset') \<Rightarrow>
             if len = 0 then Inr (words, offset')
             else if int (length data) < int offset' + len then Inl BufferError
             else
               decode_sentence_loop data (offset' + nat len)
                 (words @ [bytes_decode (py_slice data offset' (offset' + nat len))]))
      else Inr (words, offset))"
  by pat_completeness auto
termination
  by (relation "measure (\<lambda>(data, offset, words). length data - offset)")
     (auto simp: decode_length_def Let_def split: if_splits sum.splits)

declare decode_sentence_loop.simps [simp del]

definition decode_sentence :: "bytes \<Rightarrow> nat \<Rightarrow> error + (string list \<times> nat)" where
  "decode_sentence data offset = decode_sentence_loop data offset []"

text \<open>A word that the wire format can carry: not empty (an empty word is the terminator), valid
  UTF-8, and shorter than \<open>2\<^sup>3\<^sup>2\<close> bytes.\<close>

definition wire_word :: "string \<Rightarrow> bool" where
  "wire_word w = (w \<noteq> [] \<and> valid_utf8 (str_encode w) \<and> int (length w) < 2 ^ 32)"

subsection \<open>Responses\<close>

text \<open>
  The dictionary that \<open>parse_response\<close> returns: \<open>"type"\<close> is a word or \<open>None\<close>,
  \<open>"tag"\<close> is an \<open>int\<close>, the raw text when \<open>int()\<close> rejects it, or \<open>None\<close>, and
  \<open>"attrs"\<close> maps a key to a string or to \<open>True\<close>.
\<close>

datatype tag_value = TagInt int | TagStr string

datatype attr_value = AttrStr string | AttrTrue

record response =
  rtype :: "string option"
  rtag :: "tag_value option"
  attrs :: "string \<rightharpoonup> attr_value"

definition startswith :: "string \<Rightarrow> string \<Rightarrow> bool" where
  "startswith s p = (take (length p) s = p)"

text \<open>\<open>s.index(c, start)\<close>: the first position of \<open>c\<close> at or after \<open>start\<close>; \<open>None\<close> stands
  for the \<open>ValueError\<close> raised when there is none.\<close>

definition str_index :: "string \<Rightarrow> char \<Rightarrow> nat \<Rightarrow> nat option" where
  "str_index s c start =
     (if c \<in> set (drop start s)
      then Some (start + length (takeWhile (\<lambda>x. x \<noteq> c) (drop start s)))
      else None)"

text \<open>
  One iteration of the loop of \<open>parse_response\<close>.  The builtin \<open>int\<close> is the parameter
  \<open>py_int\<close>, with \<open>None\<close> for its \<open>ValueError\<close>.
\<close>

definition parse_word :: "(string \<Rightarrow> int option) \<Rightarrow> response \<Rightarrow> string \<Rightarrow> error + response" where
  "parse_word py_int result word =
     (if startswith word ''!'' then Inr (result\<lparr>rtype := Some word\<rparr>)
      else if startswith word ''.tag='' then
        (case py_int (drop 5 word) of
           Some i \<Rightarrow> Inr (result\<lparr>rtag := Some (TagInt i)\<rparr>)
         | None \<Rightarrow> Inr (result\<lparr>rtag := Some (TagStr (drop 5 word))\<rparr>))
      else if startswith word ''='' then
        (case str_index word CHR ''='' 1 of
           None \<Rightarrow> Inl ValueError
         | Some eq2 \<Rightarrow>
             Inr (result\<lparr>attrs := (attrs result)
                    (py_slice word 1 eq2 \<mapsto> AttrStr (drop (eq2 + 1) word))\<rparr>))
      else if startswith word ''?'' then
        Inr (result\<lparr>attrs := (attrs result)(word \<mapsto> AttrTrue)\<rparr>)
      else Inr result)"

fun parse_loop :: "(string \<Rightarrow> int option) \<Rightarrow> response \<Rightarrow> string list \<Rightarrow> error + response" where
  "parse_loop py_int result [] = Inr result"
| "parse_loop py_int result (word # words) =
     (case parse_word py_int result word of
        Inl e \<Rightarrow> Inl e
      | Inr result' \<Rightarrow> parse_loop py_int result' words)"

definition parse_response :: "(string \<Rightarrow> int option) \<Rightarrow> string list \<Rightarrow> error + response" where
  "parse_response py_int words =
     parse_loop py_int \<lparr>rtype = None, rtag = None, attrs = Map.empty\<rparr> words"

text \<open>
  Decimal text.  \<open>str_nat\<close> is \<open>str(n)\<close> for a non-negative \<open>int\<close>, as the f-strings
  of the client render a tag.  \<open>dec_int\<close> reads a plain run of ASCII digits; Python's
  \<open>int\<close> returns the same value on such a string, and \<open>dec_int\<close> stands in for it in
  closed examples.
\<close>

definition digit_char :: "nat \<Rightarrow> char" where
  "digit_char d = char_of (48 + d)"

function str_nat :: "nat \<Rightarrow> string" where
  "str_nat n = (if n < 10 then [digit_char n] else str_nat (n div 10) @ [digit_char (n mod 10)])"
  by pat_completeness auto
termination
  by (relation "measure id") auto

declare str_nat.simps [simp del]

definition is_digit :: "char \<Rightarrow> bool" where
  "is_digit c = (48 \<le> (of_char c :: nat) \<and> (of_char c :: nat) \<le> 57)"

definition dec_int :: "string \<Rightarrow> int option" where
  "dec_int s =
     (if s \<noteq> [] \<and> list_all is_digit s
      then Some (foldl (\<lambda>acc c. acc * 10 + (int (of_char c) - 48)) 0 s)
      else None)"

text \<open>The key under which a word is stored in \<open>attrs\<close>, if it is stored there (data model:
  \<open>=key=value\<close> words and \<open>?\<close> query words).\<close>

definition attr_key :: "string \<Rightarrow> string option" where
  "attr_key w =
     (if startswith w ''='' then Some (takeWhile (\<lambda>c. c \<noteq> CHR ''='') (tl w))
      else if startswith w ''?'' then Some w
      else None)"

text \<open>
  The documented class boundaries of the length prefix (spec, data model): the width in
  bytes chosen by magnitude, and the marker bits of the first byte of each class.
\<close>

definition length_class :: "int \<Rightarrow> nat" where
  "length_class n =
     (if n < 0x80 then 1 else if n < 0x4000 then 2 else if n < 0x200000 then 3
      else if n < 0x10000000 then 4 else 5)"

definition class_marker :: "nat \<Rightarrow> byte \<Rightarrow> bool" where
  "class_marker k b =
     (if k = 1 then drop_bit 7 b = 0
      else if k = 2 then drop_bit 6 b = 2
      else if k = 3 then drop_bit 5 b = 6
      else if k = 4 then drop_bit 4 b = 14
      else b = 0xF0)"

section \<open>Proofs: the wire codec\<close>

subsection \<open>Bit operations on Python integers\<close>

lemma and_push_bit_disjoint:
  assumes "0 \<le> (n::int)" "n < 2 ^ k"
  shows "n AND push_bit k m = 0"
proof -
  have "take_bit k n = n"
    using assms by (simp add: take_bit_int_eq_self)
  then have "n AND push_bit k m = take_bit k n AND push_bit k m"
    by simp
  also have "\<dots> = 0"
    by (rule bit_eqI) (auto simp: bit_simps)
  finally show ?thesis .
qed

lemma or_class_bits:
  assumes "0 \<le> (n::int)" "n < 2 ^ k"
  shows "n OR m * 2 ^ k = n + m * 2 ^ k"
  using and_push_bit_disjoint [OF assms, of m]
  by (simp add: disjunctive_add_eq_or push_bit_eq_mult)

lemma and_mask_low:
  assumes "0 \<le> (n::int)" "n < 2 ^ k"
  shows "(n + m * 2 ^ k) AND (2 ^ k - 1) = n"
proof -
  have "(n + m * 2 ^ k) AND mask k = (n + m * 2 ^ k) mod 2 ^ k"
    by (simp add: take_bit_eq_mask [symmetric] take_bit_eq_mod)
  also have "\<dots> = n"
    using assms by simp
  finally show ?thesis
    by (simp add: mask_eq_exp_minus_1)
qed

lemma be_int_snoc: "be_int acc (bs @ [b]) = be_int acc bs * 256 + uint b"
  by (induction bs arbitrary: acc) simp_all

lemma be_int_be_bytes: "be_int 0 (be_bytes k v) = v mod 256 ^ k"
proof (induction k arbitrary: v)
  case 0
  show ?case by simp
next
  case (Suc k)
  have "be_int 0 (be_bytes (Suc k) v) = (v div 256 mod 256 ^ k) * 256 + v mod 256"
    by (simp add: be_int_snoc Suc uint_word_of_int)
  also have "\<dots> = v mod (256 * 256 ^ k)"
    using zmod_zmult2_eq [of "256 ^ k" v 256] by (simp add: mult.commute)
  finally show ?case by simp
qed

lemma length_be_bytes: "length (be_bytes k v) = k"
  by (induction k arbitrary: v) simp_all

lemma be_bytes_top:
  "be_bytes (Suc k) v = word_of_int (v div 256 ^ k) # be_bytes k v"
proof (induction k arbitrary: v)
  case 0
  show ?case by simp
next
  case (Suc k)
  have "be_bytes (Suc (Suc k)) v = be_bytes (Suc k) (v div 256) @ [word_of_int v]"
    by simp
  also have "\<dots> = word_of_int (v div 256 div 256 ^ k) # be_bytes k (v div 256) @ [word_of_int v]"
    by (simp only: Suc append_Cons)
  also have "v div 256 div 256 ^ k = v div 256 ^ Suc k"
    by (simp add: zdiv_zmult2_eq)
  finally show ?case by simp
qed

lemma struct_unpack_pack:
  "0 \<le> v \<Longrightarrow> v < 256 ^ k \<Longrightarrow> struct_unpack k (be_bytes k v) = Inr v"
  by (simp add: struct_unpack_def length_be_bytes be_int_be_bytes)

lemma be_bytes_nth0:
  "be_bytes k v ! 0 = word_of_int (v div 256 ^ (k - 1))" if "0 < k"
proof (cases k)
  case 0
  then show ?thesis using that by simp
next
  case (Suc j)
  then show ?thesis by (simp only: be_bytes_top nth_Cons_0 diff_Suc_1)
qed

lemma be_bytes_drop1: "drop (Suc 0) (be_bytes k v) = be_bytes (k - 1) v" if "0 < k"
proof (cases k)
  case 0
  then show ?thesis using that by simp
next
  case (Suc j)
  then show ?thesis by (simp only: be_bytes_top diff_Suc_1) simp
qed

lemma slice_all: "length data = k \<Longrightarrow> py_slice data 0 k = data"
  by (simp add: py_slice_def)

lemma uint_byte_of_int: "0 \<le> x \<Longrightarrow> x < 256 \<Longrightarrow> uint (word_of_int x :: byte) = x"
  by (simp add: uint_word_of_int)

lemma class1:
  assumes "0 \<le> n" "n < 0x80"
  shows "encode_length n = Inr [word_of_int n]"
    and "decode_length [word_of_int n] 0 = Inr (n, 1)"
  using assms by (simp_all add: encode_length_def struct_pack_def decode_length_def uint_byte_of_int)

lemma class2_enc:
  assumes "0x80 \<le> n" "n < 0x4000"
  shows "encode_length n = Inr (be_bytes 2 (n + 0x8000))"
  using assms or_class_bits [of n 15 1]
  by (simp add: encode_length_def struct_pack_def)

lemma class2_dec:
  assumes "0x80 \<le> n" "n < 0x4000"
  shows "decode_length (be_bytes 2 (n + 0x8000)) 0 = Inr (n, 2)"
proof -
  let ?v = "n + 0x8000"
  have b: "uint (be_bytes 2 ?v ! 0) = ?v div 256"
    using assms by (simp add: be_bytes_nth0 uint_byte_of_int)
  have r: "0x80 \<le> ?v div 256" "?v div 256 < 0xC0"
    using assms by simp_all
  have u: "struct_unpack 2 (be_bytes 2 ?v) = Inr ?v"
    using assms by (simp add: struct_unpack_pack)
  have m: "?v AND 0x3FFF = n"
    using assms and_mask_low [of n 14 2] by simp
  show ?thesis
    using r by (simp add: decode_length_def length_be_bytes b slice_all u m Let_def)
qed

lemma class3_enc:
  assumes "0x4000 \<le> n" "n < 0x200000"
  shows "encode_length n = Inr (be_bytes 3 (n + 0xC00000))"
  using assms or_class_bits [of n 22 3]
  by (simp add: encode_length_def struct_pack_def be_bytes_drop1)

lemma class3_dec:
  assumes "0x4000 \<le> n" "n < 0x200000"
  shows "decode_length (be_bytes 3 (n + 0xC00000)) 0 = Inr (n, 3)"
proof -
  let ?v = "n + 0xC00000"
  have b: "uint (be_bytes 3 ?v ! 0) = ?v div 65536"
    using assms by (simp add: be_bytes_nth0 uint_byte_of_int)
  have r: "0xC0 \<le> ?v div 65536" "?v div 65536 < 0xE0"
    using assms by simp_all
  have "struct_unpack 4 (0 # be_bytes 3 ?v) = Inr (be_int 0 (be_bytes 3 ?v))"
    by (simp add: struct_unpack_def length_be_bytes)
  then have u: "struct_unpack 4 (0 # be_bytes 3 ?v) = Inr ?v"
    using assms by (simp add: be_int_be_bytes)
  have m: "?v AND 0x1FFFFF = n"
    using assms and_mask_low [of n 21 6] by simp
  show ?thesis
    using r by (simp add: decode_length_def length_be_bytes b slice_all u m Let_def)
qed

lemma class4_enc:
  assumes "0x200000 \<le> n" "n < 0x10000000"
  shows "encode_length n = Inr (be_bytes 4 (n + 0xE0000000))"
  using assms or_class_bits [of n 29 7]
  by (simp add: encode_length_def struct_pack_def)

lemma class4_dec:
  assumes "0x200000 \<le> n" "n < 0x10000000"
  shows "decode_length (be_bytes 4 (n + 0xE0000000)) 0 = Inr (n, 4)"
proof -
  let ?v = "n + 0xE0000000"
  have b: "uint (be_bytes 4 ?v ! 0) = ?v div 16777216"
    using assms by (simp add: be_bytes_nth0 uint_byte_of_int)
  have r: "0xE0 \<le> ?v div 16777216" "?v div 16777216 < 0xF0"
    using assms by simp_all
  have u: "struct_unpack 4 (be_bytes 4 ?v) = Inr ?v"
    using assms by (simp add: struct_unpack_pack)
  have m: "?v AND 0x0FFFFFFF = n"
    using assms and_mask_low [of n 28 14] by simp
  show ?thesis
    using r by (simp add: decode_length_def length_be_bytes b slice_all u m Let_def)
qed

lemma class5_enc:
  assumes "0x10000000 \<le> n" "n < 0x100000000"
  shows "encode_length n = Inr (0xF0 # be_bytes 4 n)"
  using assms by (simp add: encode_length_def struct_pack_def)

lemma class5_dec:
  assumes "0x10000000 \<le> n" "n < 0x100000000"
  shows "decode_length (0xF0 # be_bytes 4 n) 0 = Inr (n, 5)"
proof -
  have s: "py_slice (0xF0 # be_bytes 4 n) (Suc 0) 5 = be_bytes 4 n"
    by (simp add: py_slice_def length_be_bytes)
  have u: "struct_unpack 4 (be_bytes 4 n) = Inr n"
    using assms by (simp add: struct_unpack_pack)
  show ?thesis
    by (simp add: decode_length_def s u)
qed


lemma top_bits:
  fixes b :: byte
  assumes "m * 2 ^ k \<le> unat b" "unat b < (m + 1) * 2 ^ k"
  shows "drop_bit k b = of_nat m"
proof -
  have "unat (drop_bit k b) = unat b div 2 ^ k"
    by (simp only: unat_drop_bit_eq drop_bit_nat_def)
  also have "\<dots> = m"
    using assms by (intro div_nat_eqI) (simp_all add: mult.commute)
  finally have "of_nat (unat (drop_bit k b)) = (of_nat m :: byte)"
    by simp
  then show ?thesis
    by simp
qed

lemma unat_bounds:
  fixes b :: byte
  assumes "int lo \<le> uint b" "uint b < int hi"
  shows "lo \<le> unat b" "unat b < hi"
  using assms by (simp_all only: uint_nat of_nat_le_iff of_nat_less_iff)

lemma class2_top:
  assumes "0x80 \<le> n" "n < 0x4000"
  shows "drop_bit 6 (be_bytes 2 (n + 0x8000) ! 0) = 2"
proof -
  let ?b = "be_bytes 2 (n + 0x8000) ! 0"
  have "uint ?b = (n + 0x8000) div 256"
    using assms by (simp add: be_bytes_nth0 uint_byte_of_int)
  then have "int 128 \<le> uint ?b" "uint ?b < int 192"
    using assms by simp_all
  then show ?thesis
    using top_bits [of 2 6 ?b] unat_bounds [of 128 ?b 192] by simp
qed

lemma class3_top:
  assumes "0x4000 \<le> n" "n < 0x200000"
  shows "drop_bit 5 (be_bytes 3 (n + 0xC00000) ! 0) = 6"
proof -
  let ?b = "be_bytes 3 (n + 0xC00000) ! 0"
  have "uint ?b = (n + 0xC00000) div 65536"
    using assms by (simp add: be_bytes_nth0 uint_byte_of_int)
  then have "int 192 \<le> uint ?b" "uint ?b < int 224"
    using assms by simp_all
  then show ?thesis
    using top_bits [of 6 5 ?b] unat_bounds [of 192 ?b 224] by simp
qed

lemma class4_top:
  assumes "0x200000 \<le> n" "n < 0x10000000"
  shows "drop_bit 4 (be_bytes 4 (n + 0xE0000000) ! 0) = 14"
proof -
  let ?b = "be_bytes 4 (n + 0xE0000000) ! 0"
  have "uint ?b = (n + 0xE0000000) div 16777216"
    using assms by (simp add: be_bytes_nth0 uint_byte_of_int)
  then have "int 224 \<le> uint ?b" "uint ?b < int 240"
    using assms by simp_all
  then show ?thesis
    using top_bits [of 14 4 ?b] unat_bounds [of 224 ?b 240] by simp
qed

subsection \<open>Length prefix round trip\<close>

lemma length_prefix_classes:
  assumes "0 \<le> n" and "n < 2 ^ 32"
  shows "\<exists>bs. encode_length n = Inr bs
            \<and> decode_length bs 0 = Inr (n, length bs)
            \<and> length bs = length_class n
            \<and> class_marker (length_class n) (bs ! 0)"
proof -
  consider (c1) "n < 0x80" | (c2) "0x80 \<le> n" "n < 0x4000"
    | (c3) "0x4000 \<le> n" "n < 0x200000" | (c4) "0x200000 \<le> n" "n < 0x10000000"
    | (c5) "0x10000000 \<le> n"
    by linarith
  then show ?thesis
  proof cases
    case c1
    have "unat (word_of_int n :: byte) < 1 * 2 ^ 7"
      using c1 assms(1) unat_bounds(2) [of 0 "word_of_int n" 128]
      by (simp add: uint_byte_of_int)
    then have "drop_bit 7 (word_of_int n :: byte) = 0"
      using top_bits [of 0 7 "word_of_int n"] by simp
    then show ?thesis
      using c1 assms(1) class1 [of n] by (simp add: length_class_def class_marker_def)
  next
    case c2
    then show ?thesis
      using class2_enc [of n] class2_dec [of n] class2_top [of n]
      by (simp add: length_class_def class_marker_def length_be_bytes)
  next
    case c3
    then show ?thesis
      using class3_enc [of n] class3_dec [of n] class3_top [of n]
      by (simp add: length_class_def class_marker_def length_be_bytes)
  next
    case c4
    then show ?thesis
      using class4_enc [of n] class4_dec [of n] class4_top [of n]
      by (simp add: length_class_def class_marker_def length_be_bytes)
  next
    case c5
    then show ?thesis
      using assms(2) class5_enc [of n] class5_dec [of n]
      by (simp add: length_class_def class_marker_def length_be_bytes)
  qed
qed

text \<open>
  Claim C2.  For every integer \<open>n\<close> with \<open>0 \<le> n < 2\<^sup>3\<^sup>2\<close>, \<open>encode_length n\<close> returns
  bytes \<open>bs\<close> that \<open>decode_length bs 0\<close> decodes back to \<open>n\<close>, consuming exactly
  \<open>length bs\<close> bytes; the width is 1, 2, 3, 4 or 5 by the documented boundaries
  \<open>0x80\<close>, \<open>0x4000\<close>, \<open>0x200000\<close>, \<open>0x10000000\<close>, and the first byte carries the
  class bits \<open>0\<close>, \<open>10\<close>, \<open>110\<close>, \<open>1110\<close>, or is the marker \<open>0xF0\<close>.  In particular
  127 is the single byte \<open>0x7F\<close>, 128 is two bytes starting with bits \<open>10\<close>, and
  16384 is three bytes starting with bits \<open>110\<close>.
\<close>

theorem encode_decode_length_roundtrip:
  assumes "0 \<le> n" and "n < 2 ^ 32"
  shows "(\<exists>bs. encode_length n = Inr bs
            \<and> decode_length bs 0 = Inr (n, length bs)
            \<and> length bs = length_class n
            \<and> class_marker (length_class n) (bs ! 0))
         \<and> encode_length 127 = Inr [0x7F]
         \<and> encode_length 128 = Inr [0x80, 0x80]
         \<and> encode_length 16384 = Inr [0xC0, 0x40, 0x00]"
proof -
  have examples: "encode_length 127 = Inr [0x7F]" "encode_length 128 = Inr [0x80, 0x80]"
    "encode_length 16384 = Inr [0xC0, 0x40, 0x00]"
    by code_simp+
  show ?thesis
    using length_prefix_classes [OF assms] examples by simp
qed

theorem encode_decode_length_roundtrip_witness:
  "\<exists>bs. encode_length 300 = Inr bs \<and> decode_length bs 0 = Inr (300, length bs)
     \<and> length bs = 2 \<and> drop_bit 6 (bs ! 0) = 2"
  using encode_decode_length_roundtrip [of 300]
  by (simp add: length_class_def class_marker_def)


subsection \<open>Sentences\<close>

lemma char_of_byte_of_char: "char_of_byte (byte_of_char c) = c"
proof -
  have "(of_char c :: nat) < 256"
    by (rule nat_of_char_less_256)
  then have "unat (of_nat (of_char c) :: byte) = of_char c"
    by (simp add: unat_of_nat)
  then show ?thesis
    by (simp add: char_of_byte_def byte_of_char_def)
qed

lemma utf8_scan_pos: "utf8_scan (b # rest) = (ok, n) \<Longrightarrow> 0 < n"
  by (auto split: if_splits list.splits)

lemma utf8_replace_valid: "valid_utf8 bs \<Longrightarrow> utf8_replace bs = bs"
proof (induction bs rule: valid_utf8.induct)
  case 1
  show ?case by simp
next
  case (2 b rest)
  obtain ok n where s: "utf8_scan (b # rest) = (ok, n)"
    by (cases "utf8_scan (b # rest)")
  with "2.prems" have ok: ok and v: "valid_utf8 (drop (n - 1) rest)"
    by simp_all
  have n: "0 < n"
    using s by (rule utf8_scan_pos)
  have "utf8_replace (drop (n - 1) rest) = drop (n - 1) rest"
    using "2.IH" s v by simp
  moreover have "take n (b # rest) = b # take (n - 1) rest"
    using n by (cases n) simp_all
  ultimately show ?case
    using s ok by simp
qed

lemma bytes_decode_encode: "valid_utf8 (str_encode w) \<Longrightarrow> bytes_decode (str_encode w) = w"
  by (simp add: bytes_decode_def utf8_replace_valid)
     (simp add: str_encode_def char_of_byte_of_char comp_def)

lemma py_slice_append_shift:
  "py_slice (pre @ rest) (length pre + i) (length pre + j) = py_slice rest i j"
  by (simp add: py_slice_def)

lemma decode_length_shift:
  "decode_length (pre @ rest) (length pre + off) =
     (case decode_length rest off of Inl e \<Rightarrow> Inl e | Inr (n, k) \<Rightarrow> Inr (n, length pre + k))"
proof -
  show ?thesis
    by (simp add: decode_length_def nth_append py_slice_def Let_def split: sum.splits)
qed

lemma py_slice_extend:
  "j \<le> length l \<Longrightarrow> py_slice (l @ post) i j = py_slice l i j"
  by (simp add: py_slice_def)

lemma decode_length_extend:
  assumes "decode_length l 0 = Inr (n, length l)"
  shows "decode_length (l @ post) 0 = Inr (n, length l)"
  using assms
  by (auto simp: decode_length_def Let_def nth_append py_slice_extend struct_unpack_def
      split: if_splits sum.splits)

lemma encode_word_wire:
  assumes "wire_word w"
  shows "\<exists>l. encode_word w = Inr (l @ str_encode w)
           \<and> decode_length l 0 = Inr (int (length w), length l)"
proof -
  have "0 \<le> int (length w)" "int (length w) < 2 ^ 32"
    using assms by (simp_all add: wire_word_def)
  from length_prefix_classes [OF this] obtain l where
    "encode_length (int (length w)) = Inr l" "decode_length l 0 = Inr (int (length w), length l)"
    by blast
  then show ?thesis
    by (simp add: encode_word_def str_encode_def)
qed

lemma decode_loop_stop:
  assumes "offset < length data" "decode_length data offset = Inr (0, off')"
  shows "decode_sentence_loop data offset acc = Inr (acc, off')"
  by (subst decode_sentence_loop.simps) (simp add: assms)

lemma decode_loop_step:
  assumes "offset < length data" "decode_length data offset = Inr (len, off')"
    and "len \<noteq> 0" "\<not> int (length data) < int off' + len"
  shows "decode_sentence_loop data offset acc =
         decode_sentence_loop data (off' + nat len)
           (acc @ [bytes_decode (py_slice data off' (off' + nat len))])"
  by (subst decode_sentence_loop.simps) (simp add: assms)

lemma decode_loop_terminator:
  "decode_sentence_loop (pre @ [0]) (length pre) acc = Inr (acc, length pre + 1)"
proof -
  have "decode_length (pre @ [0]) (length pre + 0) = Inr (0, length pre + 1)"
    by (subst decode_length_shift) (simp add: decode_length_def)
  then show ?thesis
    by (intro decode_loop_stop) simp_all
qed

lemma decode_loop_word:
  assumes w: "wire_word w"
    and d: "decode_length l 0 = Inr (int (length w), length l)"
  shows "decode_sentence_loop (pre @ l @ str_encode w @ rest) (length pre) acc =
         decode_sentence_loop (pre @ l @ str_encode w @ rest)
           (length pre + length l + length w) (acc @ [w])"
proof -
  let ?d = "str_encode w"
  let ?data = "pre @ l @ ?d @ rest"
  have lw: "length ?d = length w"
    by (simp add: str_encode_def)
  have l: "l \<noteq> []"
    using d by (auto simp: decode_length_def)
  have "decode_length (l @ ?d @ rest) 0 = Inr (int (length w), length l)"
    using d by (rule decode_length_extend)
  then have dl: "decode_length ?data (length pre) = Inr (int (length w), length pre + length l)"
    using decode_length_shift [of pre "l @ ?d @ rest" 0] by simp
  have sl: "py_slice ?data (length pre + length l) (length pre + length l + length w) = ?d"
    by (simp add: py_slice_def lw)
  have dec: "bytes_decode ?d = w"
    using w by (simp add: wire_word_def bytes_decode_encode)
  have ne: "int (length w) \<noteq> 0"
    using w by (simp add: wire_word_def)
  have "decode_sentence_loop ?data (length pre) acc =
        decode_sentence_loop ?data (length pre + length l + nat (int (length w)))
          (acc @ [bytes_decode (py_slice ?data (length pre + length l)
                    (length pre + length l + nat (int (length w))))])"
    using l by (intro decode_loop_step [OF _ dl ne]) (simp_all add: lw)
  then show ?thesis
    by (simp only: sl dec nat_int)
qed

lemma decode_loop_sentence:
  assumes "\<forall>w\<in>set ws. wire_word w"
  shows "\<exists>enc. join_words ws = Inr enc
           \<and> (\<forall>pre acc. decode_sentence_loop (pre @ enc @ [0]) (length pre) acc
                  = Inr (acc @ ws, length pre + length enc + 1))"
  using assms
proof (induction ws)
  case Nil
  show ?case
    using decode_loop_terminator by simp
next
  case (Cons w ws)
  from Cons.prems have w: "wire_word w" and ws: "\<forall>w\<in>set ws. wire_word w"
    by simp_all
  from encode_word_wire [OF w] obtain l where
    e: "encode_word w = Inr (l @ str_encode w)"
    and d: "decode_length l 0 = Inr (int (length w), length l)"
    by blast
  from Cons.IH [OF ws] obtain enc where
    j: "join_words ws = Inr enc"
    and r: "\<And>pre acc. decode_sentence_loop (pre @ enc @ [0]) (length pre) acc
              = Inr (acc @ ws, length pre + length enc + 1)"
    by blast
  have "decode_sentence_loop (pre @ ((l @ str_encode w) @ enc) @ [0]) (length pre) acc
          = Inr (acc @ w # ws, length pre + length ((l @ str_encode w) @ enc) + 1)" for pre acc
  proof -
    have "decode_sentence_loop (pre @ l @ str_encode w @ enc @ [0]) (length pre) acc
            = decode_sentence_loop (pre @ l @ str_encode w @ enc @ [0])
                (length pre + length l + length w) (acc @ [w])"
      by (rule decode_loop_word [OF w d])
    also have "\<dots> = Inr ((acc @ [w]) @ ws, length (pre @ l @ str_encode w) + length enc + 1)"
      using r [of "pre @ l @ str_encode w" "acc @ [w]"] by (simp add: str_encode_def add.assoc)
    finally show ?thesis
      by (simp add: str_encode_def)
  qed
  then show ?case
    using e j by auto
qed

text \<open>
  Claim C3 (as amended).  For every list \<open>ws\<close> of words that are not empty, are valid UTF-8
  and are shorter than \<open>2\<^sup>3\<^sup>2\<close> bytes, \<open>build_sentence ws\<close> returns bytes \<open>bs\<close>, and
  \<open>decode_sentence bs 0\<close> returns exactly \<open>(ws, length bs)\<close>: all words in order, the
  terminator consumed.  The claim as stated, for every list of strings, fails on an empty
  word: its encoding is the single byte \<open>0x00\<close>, which is the sentence terminator.
\<close>

theorem sentence_roundtrip:
  assumes "\<forall>w\<in>set ws. w \<noteq> [] \<and> valid_utf8 (str_encode w) \<and> int (length w) < 2 ^ 32"
  shows "\<exists>bs. build_sentence ws = Inr bs \<and> decode_sentence bs 0 = Inr (ws, length bs)"
proof -
  from assms have "\<forall>w\<in>set ws. wire_word w"
    by (simp add: wire_word_def)
  from decode_loop_sentence [OF this] obtain enc where
    j: "join_words ws = Inr enc"
    and r: "\<And>pre acc. decode_sentence_loop (pre @ enc @ [0]) (length pre) acc
              = Inr (acc @ ws, length pre + length enc + 1)"
    by blast
  have "decode_sentence (enc @ [0]) 0 = Inr (ws, length (enc @ [0]))"
    using r [of "[]" "[]"] by (simp add: decode_sentence_def)
  then show ?thesis
    using j by (simp add: build_sentence_def)
qed

theorem sentence_roundtrip_witness:
  "\<exists>bs. build_sentence [''/login'', ''=name=admin''] = Inr bs
     \<and> decode_sentence bs 0 = Inr ([''/login'', ''=name=admin''], length bs)"
proof -
  have "\<forall>w\<in>set [''/login'', ''=name=admin''].
          w \<noteq> [] \<and> valid_utf8 (str_encode w) \<and> int (length w) < 2 ^ 32"
    by code_simp
  then show ?thesis
    by (rule sentence_roundtrip)
qed

text \<open>
  The counterexample to C3 as stated: the list holding one empty string builds the two
  bytes \<open>00 00\<close>, and decoding stops at the first, returning no word and offset 1.
\<close>

theorem sentence_roundtrip_counterexample:
  "valid_utf8 (str_encode [])
   \<and> build_sentence [[]] = Inr [0x00, 0x00]
   \<and> decode_sentence [0x00, 0x00] 0 = Inr ([], 1)
   \<and> decode_sentence [0x00, 0x00] 0 \<noteq> Inr ([[]], length [0x00 :: byte, 0x00])"
  by code_simp

text \<open>
  Claim C4 (the code departs from it).  A strict prefix of an encoded sentence must only
  ever be signalled as incomplete.  The decoder does so when the buffer ends inside a
  word (\<open>BufferError\<close>), but a prefix that ends on a word boundary, before the
  terminator, is returned as a decoded result, and a prefix that ends inside a multi-byte
  length prefix raises \<open>struct.error\<close>, which is not the incomplete signal.
\<close>

theorem decode_sentence_prefix_defects:
  "build_sentence [''a''] = Inr [0x01, 0x61, 0x00]
   \<and> decode_sentence (take 2 [0x01, 0x61, 0x00]) 0 = Inr ([''a''], 2)
   \<and> decode_sentence (take 1 [0x01, 0x61, 0x00]) 0 = Inl BufferError
   \<and> build_sentence [replicate 128 CHR ''a''] = Inr (0x80 # 0x80 # replicate 128 0x61 @ [0x00])
   \<and> decode_sentence (take 1 (0x80 # 0x80 # replicate 128 0x61 @ [0x00])) 0 = Inl StructError"
  by code_simp


section \<open>Proofs: responses\<close>

lemma startswith_Cons: "startswith w (c # p) = (\<exists>t. w = c # t \<and> startswith t p)"
  by (cases w) (auto simp: startswith_def)

lemma startswith_Nil [simp]: "startswith w []"
  by (simp add: startswith_def)

lemma str_index_second:
  assumes "CHR ''='' \<in> set (tl w)"
  shows "\<exists>eq2. str_index w CHR ''='' 1 = Some eq2
           \<and> py_slice w 1 eq2 = takeWhile (\<lambda>c. c \<noteq> CHR ''='') (tl w)"
proof -
  let ?k = "takeWhile (\<lambda>c. c \<noteq> CHR ''='') (tl w)"
  have d: "drop (Suc 0) w = tl w"
    by (simp add: drop_Suc)
  have "take (length ?k) (tl w) = ?k"
    by (metis append_eq_conv_conj takeWhile_dropWhile_id)
  then show ?thesis
    using assms by (simp add: str_index_def py_slice_def d)
qed

lemma parse_word_total:
  assumes "startswith w ''='' \<longrightarrow> CHR ''='' \<in> set (tl w)"
  shows "\<exists>r'. parse_word p r w = Inr r'"
proof (cases "startswith w ''='' \<and> \<not> startswith w ''!'' \<and> \<not> startswith w ''.tag=''")
  case True
  then obtain eq2 where "str_index w CHR ''='' 1 = Some eq2"
    using assms str_index_second by blast
  then show ?thesis
    using True by (simp add: parse_word_def)
next
  case False
  then show ?thesis
    by (auto simp: parse_word_def split: option.splits)
qed

lemma parse_loop_total:
  assumes "\<forall>w\<in>set ws. startswith w ''='' \<longrightarrow> CHR ''='' \<in> set (tl w)"
  shows "\<exists>r'. parse_loop p r ws = Inr r'"
  using assms
proof (induction ws arbitrary: r)
  case Nil
  show ?case by simp
next
  case (Cons w ws)
  then obtain r1 where "parse_word p r w = Inr r1"
    using parse_word_total [of w p r] by auto
  then show ?case
    using Cons by simp
qed

lemma parse_loop_split:
  assumes "parse_loop p r0 (pre @ [w] @ post) = Inr r"
  shows "\<exists>r1 r2. parse_loop p r0 pre = Inr r1 \<and> parse_word p r1 w = Inr r2
           \<and> parse_loop p r2 post = Inr r"
  using assms
proof (induction pre arbitrary: r0)
  case Nil
  then show ?case
    by (auto split: sum.splits)
next
  case (Cons x pre)
  then show ?case
    by (auto split: sum.splits)
qed

lemma parse_word_type_frame:
  "parse_word p r w = Inr r' \<Longrightarrow> \<not> startswith w ''!'' \<Longrightarrow> rtype r' = rtype r"
  by (auto simp: parse_word_def split: if_splits option.splits)

lemma parse_word_tag_frame:
  "parse_word p r w = Inr r' \<Longrightarrow> \<not> startswith w ''.tag='' \<Longrightarrow> rtag r' = rtag r"
  by (auto simp: parse_word_def split: if_splits option.splits)

lemma parse_word_attr_frame:
  assumes "parse_word p r w = Inr r'" "attr_key w \<noteq> Some k"
  shows "attrs r' k = attrs r k"
proof (cases "startswith w ''='' \<and> \<not> startswith w ''!'' \<and> \<not> startswith w ''.tag=''")
  case True
  with assms(1) obtain eq2 where e: "str_index w CHR ''='' 1 = Some eq2"
    by (auto simp: parse_word_def split: option.splits)
  then have "CHR ''='' \<in> set (tl w)"
    by (auto simp: str_index_def drop_Suc split: if_splits)
  from str_index_second [OF this] e
  have "py_slice w 1 eq2 = takeWhile (\<lambda>c. c \<noteq> CHR ''='') (tl w)"
    by simp
  then show ?thesis
    using assms True e by (auto simp: parse_word_def attr_key_def)
next
  case False
  then show ?thesis
    using assms by (auto simp: parse_word_def attr_key_def split: if_splits option.splits)
qed

lemma parse_loop_type_frame:
  "parse_loop p r ws = Inr r' \<Longrightarrow> \<forall>w\<in>set ws. \<not> startswith w ''!'' \<Longrightarrow> rtype r' = rtype r"
proof (induction ws arbitrary: r)
  case Nil
  then show ?case by simp
next
  case (Cons w ws)
  then show ?case
    by (auto split: sum.splits dest: parse_word_type_frame)
qed

lemma parse_loop_tag_frame:
  "parse_loop p r ws = Inr r' \<Longrightarrow> \<forall>w\<in>set ws. \<not> startswith w ''.tag='' \<Longrightarrow> rtag r' = rtag r"
proof (induction ws arbitrary: r)
  case Nil
  then show ?case by simp
next
  case (Cons w ws)
  then show ?case
    by (auto split: sum.splits dest: parse_word_tag_frame)
qed

lemma parse_loop_attr_frame:
  "parse_loop p r ws = Inr r' \<Longrightarrow> \<forall>w\<in>set ws. attr_key w \<noteq> Some k \<Longrightarrow> attrs r' k = attrs r k"
proof (induction ws arbitrary: r)
  case Nil
  then show ?case by simp
next
  case (Cons w ws)
  then show ?case
    by (auto split: sum.splits dest: parse_word_attr_frame)
qed

lemma parse_word_type:
  "startswith w ''!'' \<Longrightarrow> parse_word p r w = Inr (r\<lparr>rtype := Some w\<rparr>)"
  by (simp add: parse_word_def)

lemma parse_word_tag_int:
  "py_int s = Some i \<Longrightarrow> parse_word py_int r (''.tag='' @ s) = Inr (r\<lparr>rtag := Some (TagInt i)\<rparr>)"
  by (simp add: parse_word_def startswith_def)

lemma parse_word_tag_str:
  "py_int s = None \<Longrightarrow> parse_word py_int r (''.tag='' @ s) = Inr (r\<lparr>rtag := Some (TagStr s)\<rparr>)"
  by (simp add: parse_word_def startswith_def)

lemma parse_word_attr:
  assumes "CHR ''='' \<notin> set k"
  shows "parse_word p r (''='' @ k @ ''='' @ v)
           = Inr (r\<lparr>attrs := (attrs r)(k \<mapsto> AttrStr v)\<rparr>)"
proof -
  have "takeWhile (\<lambda>c. c \<noteq> CHR ''='') (k @ CHR ''='' # v) = k"
    using assms by (subst takeWhile_append2) auto
  then have "str_index (''='' @ k @ ''='' @ v) CHR ''='' 1 = Some (1 + length k)"
    by (simp add: str_index_def)
  then show ?thesis
    by (simp add: parse_word_def startswith_def py_slice_def)
qed

lemma parse_word_query:
  "startswith q ''?'' \<Longrightarrow> parse_word p r q = Inr (r\<lparr>attrs := (attrs r)(q \<mapsto> AttrTrue)\<rparr>)"
  by (auto simp: parse_word_def startswith_Cons)


text \<open>
  Claim C7 (as amended).  For every list of words in which each word that begins with
  \<open>=\<close> has a second \<open>=\<close>, \<open>parse_response\<close> returns a response such that: when
  exactly one word begins with \<open>!\<close>, it is the response type; the tag is \<open>None\<close> when no
  word begins with \<open>.tag=\<close>, and otherwise the last such word sets it, to the integer
  when \<open>int\<close> accepts the text after \<open>.tag=\<close> and to that text when it does not; a word
  \<open>=key=value\<close> stores \<open>value\<close> under \<open>key\<close> and a later word with the same key
  overwrites it; a word beginning with \<open>?\<close> is stored under itself with the value
  \<open>True\<close>; a key that no word writes is absent.
\<close>

theorem parse_response_classifies:
  assumes ok: "\<forall>w\<in>set words. startswith w ''='' \<longrightarrow> CHR ''='' \<in> set (tl w)"
  shows "\<exists>r. parse_response py_int words = Inr r
     \<and> (\<forall>t. filter (\<lambda>w. startswith w ''!'') words = [t] \<longrightarrow> rtype r = Some t)
     \<and> ((\<forall>w\<in>set words. \<not> startswith w ''.tag='') \<longrightarrow> rtag r = None)
     \<and> (\<forall>pre s post i. words = pre @ [''.tag='' @ s] @ post
           \<and> (\<forall>w\<in>set post. \<not> startswith w ''.tag='') \<and> py_int s = Some i
           \<longrightarrow> rtag r = Some (TagInt i))
     \<and> (\<forall>pre s post. words = pre @ [''.tag='' @ s] @ post
           \<and> (\<forall>w\<in>set post. \<not> startswith w ''.tag='') \<and> py_int s = None
           \<longrightarrow> rtag r = Some (TagStr s))
     \<and> (\<forall>pre k v post. words = pre @ [''='' @ k @ ''='' @ v] @ post
           \<and> CHR ''='' \<notin> set k \<and> (\<forall>w\<in>set post. attr_key w \<noteq> Some k)
           \<longrightarrow> attrs r k = Some (AttrStr v))
     \<and> (\<forall>pre q post. words = pre @ [q] @ post
           \<and> startswith q ''?'' \<and> (\<forall>w\<in>set post. attr_key w \<noteq> Some q)
           \<longrightarrow> attrs r q = Some AttrTrue)
     \<and> (\<forall>k. (\<forall>w\<in>set words. attr_key w \<noteq> Some k) \<longrightarrow> attrs r k = None)"
proof -
  let ?r0 = "\<lparr>rtype = None, rtag = None, attrs = Map.empty\<rparr>"
  from parse_loop_total [OF ok] obtain r where r: "parse_loop py_int ?r0 words = Inr r"
    by blast
  have ty: "rtype r = Some t" if f: "filter (\<lambda>w. startswith w ''!'') words = [t]" for t
  proof -
    from f obtain pre post where w: "words = pre @ t # post"
      and pre: "\<forall>u\<in>set pre. \<not> startswith u ''!''" and t: "startswith t ''!''"
      and post: "filter (\<lambda>w. startswith w ''!'') post = []"
      by (auto simp: filter_eq_Cons_iff)
    from post have post': "\<forall>u\<in>set post. \<not> startswith u ''!''"
      by (simp add: filter_empty_conv)
    from r w obtain r1 r2 where "parse_word py_int r1 t = Inr r2" "parse_loop py_int r2 post = Inr r"
      using parse_loop_split [of py_int ?r0 pre t post r] by auto
    then show ?thesis
      using parse_word_type [OF t, of py_int r1] parse_loop_type_frame [OF _ post'] by auto
  qed
  have notag: "rtag r = None" if "\<forall>w\<in>set words. \<not> startswith w ''.tag=''"
    using parse_loop_tag_frame [OF r that] by simp
  have tag: "rtag r = Some (TagInt i)"
    if w: "words = pre @ [''.tag='' @ s] @ post"
      and post: "\<forall>w\<in>set post. \<not> startswith w ''.tag=''" and i: "py_int s = Some i"
    for pre s post i
  proof -
    from r w obtain r1 r2 where "parse_word py_int r1 (''.tag='' @ s) = Inr r2"
      "parse_loop py_int r2 post = Inr r"
      using parse_loop_split [of py_int ?r0 pre "''.tag='' @ s" post r] by auto
    then show ?thesis
      using parse_word_tag_int [of py_int s i r1] i parse_loop_tag_frame [OF _ post] by auto
  qed
  have tagstr: "rtag r = Some (TagStr s)"
    if w: "words = pre @ [''.tag='' @ s] @ post"
      and post: "\<forall>w\<in>set post. \<not> startswith w ''.tag=''" and i: "py_int s = None"
    for pre s post
  proof -
    from r w obtain r1 r2 where "parse_word py_int r1 (''.tag='' @ s) = Inr r2"
      "parse_loop py_int r2 post = Inr r"
      using parse_loop_split [of py_int ?r0 pre "''.tag='' @ s" post r] by auto
    then show ?thesis
      using parse_word_tag_str [of py_int s r1] i parse_loop_tag_frame [OF _ post] by auto
  qed
  have attr: "attrs r k = Some (AttrStr v)"
    if w: "words = pre @ [''='' @ k @ ''='' @ v] @ post"
      and k: "CHR ''='' \<notin> set k" and post: "\<forall>w\<in>set post. attr_key w \<noteq> Some k"
    for pre k v post
  proof -
    from r w obtain r1 r2 where "parse_word py_int r1 (''='' @ k @ ''='' @ v) = Inr r2"
      "parse_loop py_int r2 post = Inr r"
      using parse_loop_split [of py_int ?r0 pre "''='' @ k @ ''='' @ v" post r] by auto
    then show ?thesis
      using parse_word_attr [OF k, of py_int r1 v] parse_loop_attr_frame [OF _ post] by auto
  qed
  have query: "attrs r q = Some AttrTrue"
    if w: "words = pre @ [q] @ post"
      and q: "startswith q ''?''" and post: "\<forall>w\<in>set post. attr_key w \<noteq> Some q"
    for pre q post
  proof -
    from r w obtain r1 r2 where "parse_word py_int r1 q = Inr r2"
      "parse_loop py_int r2 post = Inr r"
      using parse_loop_split [of py_int ?r0 pre q post r] by auto
    then show ?thesis
      using parse_word_query [OF q, of py_int r1] parse_loop_attr_frame [OF _ post] by auto
  qed
  have absent: "attrs r k = None" if "\<forall>w\<in>set words. attr_key w \<noteq> Some k" for k
    using parse_loop_attr_frame [OF r that] by simp
  show ?thesis
    unfolding parse_response_def
    using r ty notag tag tagstr attr query absent by (intro exI [of _ r]) blast
qed


theorem parse_response_classifies_witness:
  "\<exists>r. parse_response dec_int [''!re'', ''=name=ether1'', ''=name=ether2'', ''?x'', ''.tag=7''] = Inr r
     \<and> rtype r = Some ''!re'' \<and> rtag r = Some (TagInt 7)
     \<and> attrs r ''name'' = Some (AttrStr ''ether2'') \<and> attrs r ''?x'' = Some AttrTrue
     \<and> attrs r ''comment'' = None"
proof -
  let ?ws = "[''!re'', ''=name=ether1'', ''=name=ether2'', ''?x'', ''.tag=7'']"
  have h: "\<forall>w\<in>set ?ws. startswith w ''='' \<longrightarrow> CHR ''='' \<in> set (tl w)"
    by (simp add: startswith_def)
  from parse_response_classifies [OF h, of dec_int] obtain r where
    r: "parse_response dec_int ?ws = Inr r"
    and ty: "\<And>t. filter (\<lambda>w. startswith w ''!'') ?ws = [t] \<Longrightarrow> rtype r = Some t"
    and tg: "\<And>pre s post i. ?ws = pre @ [''.tag='' @ s] @ post
           \<and> (\<forall>w\<in>set post. \<not> startswith w ''.tag='') \<and> dec_int s = Some i
           \<Longrightarrow> rtag r = Some (TagInt i)"
    and at: "\<And>pre k v post. ?ws = pre @ [''='' @ k @ ''='' @ v] @ post
           \<and> CHR ''='' \<notin> set k \<and> (\<forall>w\<in>set post. attr_key w \<noteq> Some k)
           \<Longrightarrow> attrs r k = Some (AttrStr v)"
    and qu: "\<And>pre q post. ?ws = pre @ [q] @ post
           \<and> startswith q ''?'' \<and> (\<forall>w\<in>set post. attr_key w \<noteq> Some q)
           \<Longrightarrow> attrs r q = Some AttrTrue"
    and ab: "\<And>k. (\<forall>w\<in>set ?ws. attr_key w \<noteq> Some k) \<Longrightarrow> attrs r k = None"
    by blast
  have 1: "rtype r = Some ''!re''"
    by (rule ty) (simp add: startswith_def)
  have 2: "rtag r = Some (TagInt 7)"
    by (rule tg [of "[''!re'', ''=name=ether1'', ''=name=ether2'', ''?x'']" "''7''" "[]"])
       (simp add: dec_int_def is_digit_def)
  have 3: "attrs r ''name'' = Some (AttrStr ''ether2'')"
    by (rule at [of "[''!re'', ''=name=ether1'']" "''name''" "''ether2''" "[''?x'', ''.tag=7'']"])
       (simp add: attr_key_def startswith_def)
  have 4: "attrs r ''?x'' = Some AttrTrue"
    by (rule qu [of "[''!re'', ''=name=ether1'', ''=name=ether2'']" "''?x''" "[''.tag=7'']"])
       (simp add: attr_key_def startswith_def)
  have 5: "attrs r ''comment'' = None"
    by (rule ab) (simp add: attr_key_def startswith_def)
  show ?thesis
    using r 1 2 3 4 5 by blast
qed

text \<open>
  The counterexamples to C7 as stated, for every list of words: a word \<open>=abc\<close> makes
  \<open>word.index("=", 1)\<close> raise \<open>ValueError\<close>, so no response is returned; and with no
  word of the form \<open>.tag=<int>\<close> the tag is still not \<open>None\<close> when a word \<open>.tag=abc\<close>
  occurs.
\<close>

theorem parse_response_classifies_counterexample:
  "parse_response dec_int [''!re'', ''=abc''] = Inl ValueError
   \<and> map_sum id rtag (parse_response dec_int [''!re'', ''.tag=abc'']) = Inr (Some (TagStr ''abc''))"
  by (simp add: parse_response_def parse_word_def startswith_def str_index_def dec_int_def is_digit_def)

end
